theory Spec2Isabelle
  imports Main
begin

section \<open>The code extractor of \<open>my_agent/agent.py\<close>\<close>

text \<open>
  The only function of the repository with control flow of its own is
  \<open>parse_and_clean_code\<close>: it strips its argument, searches it with the regular expression
  \<^verbatim>\<open>```(?:[a-zA-Z0-9_]*)\s*([\s\S]*?)\s*```\<close> and returns the stripped first group, or the
  stripped argument when the search finds nothing. The development models Python's \<open>str\<close>,
  \<open>str.strip\<close>, the backtracking search of \<open>re\<close> for the constructs this pattern uses, and
  the function itself with its \<open>print\<close>.
\<close>

subsection \<open>Python strings\<close>

text \<open>
  A Python \<open>str\<close> is a sequence of Unicode code points. A code point is a natural number;
  \<open>text_of\<close> reads an ASCII literal as such a sequence.
\<close>

type_synonym codepoint = nat
type_synonym str = "codepoint list"

definition text_of :: "string \<Rightarrow> str" where
  "text_of cs = map of_char cs"

text \<open>
  \<open>Py_UNICODE_ISSPACE\<close>: the code points that \<open>str.strip()\<close> removes and that \<open>\s\<close> matches
  in a \<open>str\<close> pattern compiled without \<open>re.ASCII\<close>.
\<close>

definition isspace :: "codepoint \<Rightarrow> bool" where
  "isspace c \<longleftrightarrow>
     (9 \<le> c \<and> c \<le> 13) \<or> (28 \<le> c \<and> c \<le> 32) \<or> c = 133 \<or> c = 160 \<or> c = 5760 \<or>
     (8192 \<le> c \<and> c \<le> 8202) \<or> c = 8232 \<or> c = 8233 \<or> c = 8239 \<or> c = 8287 \<or> c = 12288"

definition lstrip :: "str \<Rightarrow> str" where
  "lstrip s = dropWhile isspace s"

definition rstrip :: "str \<Rightarrow> str" where
  "rstrip s = rev (dropWhile isspace (rev s))"

definition strip :: "str \<Rightarrow> str" where
  "strip s = rstrip (lstrip s)"

subsection \<open>Values, exceptions, \<open>str()\<close> and the \<open>strip\<close> method\<close>

text \<open>
  The exceptions that the calls of the function can raise.
\<close>

datatype py_error = AttributeError | ValueError | OSError | OtherError

text \<open>
  The function is registered as a tool and receives whatever the caller passes: a string,
  an integer, a boolean, \<open>None\<close>, or any other object. For this function another object
  is what \<open>str()\<close> does on it, which is to return a string or to raise.
\<close>

datatype py_value = PyStr str | PyInt int | PyBool bool | PyNone | PyObject "py_error + str"

fun digits :: "nat \<Rightarrow> str" where
  "digits n = (if n < 10 then [48 + n] else digits (n div 10) @ [48 + n mod 10])"

declare digits.simps [simp del]

fun isinstance_str :: "py_value \<Rightarrow> bool" where
  "isinstance_str (PyStr s) = True"
| "isinstance_str v = False"

text \<open>
  \<open>sys.int_info.default_max_str_digits\<close>: \<open>str()\<close> of an integer with more decimal
  digits than this, the sign not counted, raises \<open>ValueError\<close>.
\<close>

definition int_max_str_digits :: nat where
  "int_max_str_digits = 4300"

fun py_str :: "py_value \<Rightarrow> py_error + str" where
  "py_str (PyStr s) = Inr s"
| "py_str (PyInt i) =
     (if int_max_str_digits < length (digits (nat \<bar>i\<bar>)) then Inl ValueError
      else Inr (if i < 0 then 45 # digits (nat \<bar>i\<bar>) else digits (nat \<bar>i\<bar>)))"
| "py_str (PyBool b) = Inr (if b then text_of ''True'' else text_of ''False'')"
| "py_str PyNone = Inr (text_of ''None'')"
| "py_str (PyObject r) = r"

text \<open>
  \<open>x.strip()\<close>: the method of a string; an integer, a boolean and \<open>None\<close> have no such
  attribute. The function calls it on strings and on \<open>match.group(1)\<close> only.
\<close>

fun method_strip :: "py_value \<Rightarrow> py_error + str" where
  "method_strip (PyStr s) = Inr (strip s)"
| "method_strip v = Inl AttributeError"

subsection \<open>The regular expression\<close>

text \<open>
  The constructs of the pattern: a literal character, a greedy and a lazy star over a
  character class, a capturing group with its number, a non-capturing group, and
  concatenation.
\<close>

datatype regex =
    Lit codepoint
  | Star "codepoint \<Rightarrow> bool"
  | LazyStar "codepoint \<Rightarrow> bool"
  | Capture nat regex
  | NonCapture regex
  | Cat regex regex

type_synonym groups = "nat \<Rightarrow> str option"

text \<open>
  A backtracking matcher tries the alternatives of each construct in a fixed order and
  returns the first complete match. \<open>run p (s, g)\<close> lists, in that order, every way \<open>p\<close> can
  match a prefix of \<open>s\<close>: the text left over, and the groups set so far. A greedy star
  offers the longest run first, a lazy star the shortest.
\<close>

fun greedy_star :: "(codepoint \<Rightarrow> bool) \<Rightarrow> str \<Rightarrow> str list" where
  "greedy_star C [] = [[]]"
| "greedy_star C (x # xs) = (if C x then greedy_star C xs else []) @ [x # xs]"

fun lazy_star :: "(codepoint \<Rightarrow> bool) \<Rightarrow> str \<Rightarrow> str list" where
  "lazy_star C [] = [[]]"
| "lazy_star C (x # xs) = (x # xs) # (if C x then lazy_star C xs else [])"

fun run :: "regex \<Rightarrow> str \<times> groups \<Rightarrow> (str \<times> groups) list" where
  "run (Lit c) (s, g) = (case s of [] \<Rightarrow> [] | x # xs \<Rightarrow> if x = c then [(xs, g)] else [])"
| "run (Star C) (s, g) = map (\<lambda>r. (r, g)) (greedy_star C s)"
| "run (LazyStar C) (s, g) = map (\<lambda>r. (r, g)) (lazy_star C s)"
| "run (Capture n p) (s, g) =
     map (\<lambda>(r, g'). (r, g'(n \<mapsto> take (length s - length r) s))) (run p (s, g))"
| "run (NonCapture p) st = run p st"
| "run (Cat p q) st = concat (map (run q) (run p st))"

text \<open>
  A match object: where the match starts and ends in the searched text, and its groups.
\<close>

record rmatch =
  m_start :: nat
  m_end :: nat
  m_groups :: groups

definition match_at :: "regex \<Rightarrow> nat \<Rightarrow> str \<Rightarrow> rmatch option" where
  "match_at p i s =
     (case run p (s, Map.empty) of
        [] \<Rightarrow> None
      | (r, g) # _ \<Rightarrow> Some \<lparr>m_start = i, m_end = i + (length s - length r), m_groups = g\<rparr>)"

text \<open>
  \<open>Pattern.search\<close>: the match at the leftmost position that has one, the end of the text
  included.
\<close>

fun search_from :: "regex \<Rightarrow> nat \<Rightarrow> str \<Rightarrow> rmatch option" where
  "search_from p i [] = match_at p i []"
| "search_from p i (x # xs) =
     (case match_at p i (x # xs) of
        Some m \<Rightarrow> Some m
      | None \<Rightarrow> search_from p (Suc i) xs)"

definition search :: "regex \<Rightarrow> str \<Rightarrow> rmatch option" where
  "search p s = search_from p 0 s"

subsection \<open>\<open>parse_and_clean_code\<close>\<close>

definition backtick :: codepoint where
  "backtick = 96"

definition newline :: codepoint where
  "newline = 10"

definition is_tag_char :: "codepoint \<Rightarrow> bool" where
  "is_tag_char c \<longleftrightarrow> (97 \<le> c \<and> c \<le> 122) \<or> (65 \<le> c \<and> c \<le> 90) \<or> (48 \<le> c \<and> c \<le> 57) \<or> c = 95"

text \<open>
  \<open>[\s\S]\<close>: a whitespace character or a character that is not one, so every character.
\<close>

definition any_char :: "codepoint \<Rightarrow> bool" where
  "any_char c \<longleftrightarrow> True"

definition code_regex :: regex where
  "code_regex =
     Cat (Lit backtick) (Cat (Lit backtick) (Cat (Lit backtick)
    (Cat (NonCapture (Star is_tag_char))
    (Cat (Star isspace)
    (Cat (Capture 1 (LazyStar any_char))
    (Cat (Star isspace)
    (Cat (Lit backtick) (Cat (Lit backtick) (Lit backtick)))))))))"

text \<open>
  \<open>match.group(n)\<close>: the text of the group, or \<open>None\<close> for a group that took no part in
  the match.
\<close>

definition group :: "rmatch \<Rightarrow> nat \<Rightarrow> py_value" where
  "group m n = (case m_groups m n of Some g \<Rightarrow> PyStr g | None \<Rightarrow> PyNone)"

text \<open>
  Standard output is either a stream that takes what is written, with the lines printed
  so far, or a stream on which writing raises (\<open>ValueError\<close> once it is closed, \<open>OSError\<close>
  for a broken pipe). \<open>print\<close> appends one line or raises.
\<close>

datatype stdout = Writable "str list" | Unwritable py_error

fun print :: "str \<Rightarrow> stdout \<Rightarrow> py_error + stdout" where
  "print line (Writable ls) = Inr (Writable (ls @ [line]))"
| "print line (Unwritable e) = Inl e"

text \<open>
  The function returns a string or raises; an exception of \<open>print\<close>, of \<open>str()\<close> or of
  \<open>strip\<close> ends the call where it is raised.
\<close>

definition parse_and_clean_code :: "py_value \<Rightarrow> stdout \<Rightarrow> (py_error + str) \<times> stdout" where
  "parse_and_clean_code raw_code out =
     (case print (text_of ''Running code parser...'') out of
        Inl e \<Rightarrow> (Inl e, out)
      | Inr out' \<Rightarrow>
          (let clean_code =
             (case (if \<not> isinstance_str raw_code
                    then (case py_str raw_code of Inl e \<Rightarrow> Inl e | Inr s \<Rightarrow> Inr (PyStr s))
                    else Inr raw_code) of
                Inl e \<Rightarrow> Inl e
              | Inr raw_code' \<Rightarrow>
                  (case method_strip raw_code' of
                     Inl e \<Rightarrow> Inl e
                   | Inr clean_text \<Rightarrow>
                       (case search code_regex clean_text of
                          Some m \<Rightarrow> method_strip (group m 1)
                        | None \<Rightarrow> Inr clean_text)))
           in (clean_code, out')))"

subsection \<open>Fences\<close>

definition fence :: str where
  "fence = [backtick, backtick, backtick]"

definition starts_fence :: "str \<Rightarrow> bool" where
  "starts_fence s \<longleftrightarrow> take 3 s = fence"

text \<open>\<open>has_fence s\<close>: the text contains three consecutive backticks.\<close>

fun has_fence :: "str \<Rightarrow> bool" where
  "has_fence [] = False"
| "has_fence (x # xs) = (starts_fence (x # xs) \<or> has_fence xs)"

subsection \<open>The fenced block as the specification words it\<close>

text \<open>
  The specification describes the block without a regular expression: three backticks, a
  language tag (a run of letters, digits and underscores) right after them, any whitespace,
  then a span that ends at the next "whitespace-then-three-backticks sequence". The
  scanner below follows these words; \<open>ws_required\<close> says whether that closing sequence
  needs at least one whitespace character before its backticks.
\<close>

definition spec_closes :: "bool \<Rightarrow> str \<Rightarrow> bool" where
  "spec_closes ws_required s =
     (if ws_required then dropWhile isspace s \<noteq> s \<and> starts_fence (dropWhile isspace s)
      else starts_fence (dropWhile isspace s))"

text \<open>
  The shortest span after which the closing sequence comes, with the text from there on.
\<close>

fun spec_lazy_span :: "bool \<Rightarrow> str \<Rightarrow> (str \<times> str) option" where
  "spec_lazy_span ws_required [] = None"
| "spec_lazy_span ws_required (x # xs) =
     (if spec_closes ws_required (x # xs) then Some ([], x # xs)
      else map_option (\<lambda>(c, r). (x # c, r)) (spec_lazy_span ws_required xs))"

definition spec_block_at :: "bool \<Rightarrow> nat \<Rightarrow> str \<Rightarrow> rmatch option" where
  "spec_block_at ws_required i s =
     (if starts_fence s then
        (case spec_lazy_span ws_required (dropWhile isspace (dropWhile is_tag_char (drop 3 s))) of
           None \<Rightarrow> None
         | Some (c, r) \<Rightarrow>
             Some \<lparr>m_start = i,
                   m_end = i + (length s - length (drop 3 (dropWhile isspace r))),
                   m_groups = [1 \<mapsto> c]\<rparr>)
      else None)"

fun spec_first_block_from :: "bool \<Rightarrow> nat \<Rightarrow> str \<Rightarrow> rmatch option" where
  "spec_first_block_from ws_required i [] = None"
| "spec_first_block_from ws_required i (x # xs) =
     (case spec_block_at ws_required i (x # xs) of
        Some m \<Rightarrow> Some m
      | None \<Rightarrow> spec_first_block_from ws_required (Suc i) xs)"

definition spec_first_block :: "bool \<Rightarrow> str \<Rightarrow> rmatch option" where
  "spec_first_block ws_required s = spec_first_block_from ws_required 0 s"

subsection \<open>Auxiliary notions\<close>

definition first_of :: "'a list \<Rightarrow> 'a option" where
  "first_of xs = (case xs of [] \<Rightarrow> None | x # _ \<Rightarrow> Some x)"

text \<open>The parts of \<open>code_regex\<close>, from its end.\<close>

definition fence3 :: regex where
  "fence3 = Cat (Lit backtick) (Cat (Lit backtick) (Lit backtick))"

definition closing :: regex where
  "closing = Cat (Star isspace) fence3"

definition body :: regex where
  "body = Cat (Capture 1 (LazyStar any_char)) closing"

definition after_tag :: regex where
  "after_tag = Cat (Star isspace) body"

definition after_fence :: regex where
  "after_fence = Cat (NonCapture (Star is_tag_char)) after_tag"

section \<open>Properties\<close>

subsection \<open>Characters and fences\<close>

lemma first_of_simps [simp]: "first_of [] = None" "first_of (x # xs) = Some x"
  by (simp_all add: first_of_def)

lemma first_of_append:
  "first_of (xs @ ys) = (case first_of xs of Some x \<Rightarrow> Some x | None \<Rightarrow> first_of ys)"
  by (cases xs) simp_all

lemma isspace_backtick [simp]: "\<not> isspace backtick"
  by (simp add: isspace_def backtick_def)

lemma is_tag_char_backtick [simp]: "\<not> is_tag_char backtick"
  by (simp add: is_tag_char_def backtick_def)

lemma is_tag_char_not_space: "is_tag_char c \<Longrightarrow> \<not> isspace c"
  by (auto simp add: is_tag_char_def isspace_def)

lemma starts_fence_Nil [simp]: "\<not> starts_fence []"
  by (simp add: starts_fence_def fence_def)

lemma starts_fence_hd: "starts_fence (x # xs) \<Longrightarrow> x = backtick"
  by (simp add: starts_fence_def fence_def)

lemma starts_fence_space [simp]: "isspace x \<Longrightarrow> \<not> starts_fence (x # xs)"
  using starts_fence_hd by fastforce

lemma starts_fence_tag [simp]: "is_tag_char x \<Longrightarrow> \<not> starts_fence (x # xs)"
  using starts_fence_hd by fastforce

lemma starts_fence_iff: "starts_fence s \<longleftrightarrow> (\<exists>r. s = fence @ r)"
proof
  assume "starts_fence s"
  then have "take 3 s = fence"
    by (simp add: starts_fence_def)
  then have "s = fence @ drop 3 s"
    using append_take_drop_id [of 3 s] by simp
  then show "\<exists>r. s = fence @ r" ..
next
  assume "\<exists>r. s = fence @ r"
  then show "starts_fence s" by (auto simp add: starts_fence_def fence_def)
qed

lemma starts_fence_append [simp]: "starts_fence (fence @ r)"
  by (simp add: starts_fence_iff)

lemma run_fence3:
  "run fence3 (s, g) = (if starts_fence s then [(drop 3 s, g)] else [])"
proof (cases "starts_fence s")
  case True
  then obtain r where "s = fence @ r" by (auto simp add: starts_fence_iff)
  then show ?thesis by (simp add: fence3_def fence_def starts_fence_def)
next
  case False
  have "run fence3 (s, g) = []"
  proof (cases s)
    case Nil
    then show ?thesis by (simp add: fence3_def)
  next
    case (Cons a s1)
    note s = this
    show ?thesis
    proof (cases s1)
      case Nil
      then show ?thesis using s by (simp add: fence3_def)
    next
      case (Cons b s2)
      note s1 = this
      show ?thesis
      proof (cases s2)
        case Nil
        then show ?thesis using s s1 by (simp add: fence3_def)
      next
        case (Cons c s3)
        then show ?thesis using s s1 False
          by (auto simp add: fence3_def starts_fence_def fence_def)
      qed
    qed
  qed
  then show ?thesis using False by simp
qed

lemma run_Star: "run (Cat (Star C) q) (s, g) = concat (map (\<lambda>r. run q (r, g)) (greedy_star C s))"
  by (simp add: comp_def)

lemma closing_greedy:
  "concat (map (\<lambda>r. run fence3 (r, g)) (greedy_star isspace s)) =
     (if starts_fence (dropWhile isspace s) then [(drop 3 (dropWhile isspace s), g)] else [])"
proof (induction s)
  case Nil
  show ?case by (simp add: run_fence3)
next
  case (Cons x xs)
  show ?case
  proof (cases "isspace x")
    case True
    then have "run fence3 (x # xs, g) = []" by (simp add: run_fence3)
    then show ?thesis using True Cons by simp
  next
    case False
    then show ?thesis by (simp add: run_fence3)
  qed
qed

lemma run_closing:
  "run closing (s, g) =
     (if spec_closes False s then [(drop 3 (dropWhile isspace s), g)] else [])"
  unfolding closing_def run_Star closing_greedy spec_closes_def by simp

lemma closes_Nil [simp]: "\<not> spec_closes req []"
  by (simp add: spec_closes_def)

lemma lazy_then_closing:
  "whole = pre @ s \<Longrightarrow>
   first_of (concat (map (\<lambda>r. run closing (r, g(1 \<mapsto> take (length whole - length r) whole)))
       (lazy_star any_char s))) =
   map_option (\<lambda>(c, r). (drop 3 (dropWhile isspace r), g(1 \<mapsto> pre @ c))) (spec_lazy_span False s)"
proof (induction s arbitrary: pre)
  case Nil
  then show ?case by (simp add: run_closing)
next
  case (Cons x xs)
  have w: "whole = (pre @ [x]) @ xs" using Cons.prems by simp
  have here: "take (length whole - length (x # xs)) whole = pre"
    using Cons.prems by simp
  have star: "lazy_star any_char (x # xs) = (x # xs) # lazy_star any_char xs"
    by (simp add: any_char_def)
  show ?case
  proof (cases "spec_closes False (x # xs)")
    case True
    then show ?thesis
      unfolding star list.map concat.simps here
      by (simp add: run_closing fun_eq_iff del: lazy_star.simps)
  next
    case False
    have "first_of (concat (map (\<lambda>r. run closing (r, g(1 \<mapsto> take (length whole - length r) whole)))
       (lazy_star any_char (x # xs)))) =
       first_of (concat (map (\<lambda>r. run closing (r, g(1 \<mapsto> take (length whole - length r) whole)))
       (lazy_star any_char xs)))"
      unfolding star list.map concat.simps here
      using False by (simp add: run_closing del: lazy_star.simps)
    also have "\<dots> = map_option (\<lambda>(c, r). (drop 3 (dropWhile isspace r), g(1 \<mapsto> (pre @ [x]) @ c))) (spec_lazy_span False xs)"
      by (rule Cons.IH [OF w])
    also have "\<dots> = map_option (\<lambda>(c, r). (drop 3 (dropWhile isspace r), g(1 \<mapsto> pre @ c))) (spec_lazy_span False (x # xs))"
      using False by (cases "spec_lazy_span False xs") auto
    finally show ?thesis .
  qed
qed

lemma run_Capture_Lazy:
  "run (Cat (Capture n (LazyStar C)) q) (s, g) =
     concat (map (\<lambda>r. run q (r, g(n \<mapsto> take (length s - length r) s))) (lazy_star C s))"
  by (simp add: comp_def)

lemma run_body:
  "first_of (run body (s, g)) =
     map_option (\<lambda>(c, r). (drop 3 (dropWhile isspace r), g(1 \<mapsto> c))) (spec_lazy_span False s)"
  unfolding body_def run_Capture_Lazy
  using lazy_then_closing [of s "[]" s g] by simp

lemma greedy_then:
  assumes "\<And>x xs. C x \<Longrightarrow> first_of (k (dropWhile C xs)) = None \<Longrightarrow> first_of (k (x # xs)) = None"
  shows "first_of (concat (map k (greedy_star C s))) = first_of (k (dropWhile C s))"
proof (induction s)
  case Nil
  then show ?case by simp
next
  case (Cons x xs)
  show ?case
  proof (cases "C x")
    case True
    then show ?thesis
      using Cons assms [of x xs]
      by (auto simp add: first_of_append split: option.splits)
  next
    case False
    then show ?thesis by simp
  qed
qed

subsection \<open>The search of \<open>code_regex\<close> finds the first block\<close>

lemma lazy_span_None_closes: "spec_lazy_span req s = None \<Longrightarrow> \<not> spec_closes req s"
  by (cases s) (auto split: if_splits)

lemma closes_space: "isspace x \<Longrightarrow> spec_closes False (x # xs) = spec_closes False xs"
  by (simp add: spec_closes_def)

lemma closes_tag: "is_tag_char x \<Longrightarrow> \<not> spec_closes req (x # xs)"
  by (simp add: spec_closes_def is_tag_char_not_space)

lemma lazy_span_space:
  "isspace x \<Longrightarrow> spec_lazy_span False xs = None \<Longrightarrow> spec_lazy_span False (x # xs) = None"
  using lazy_span_None_closes [of False xs] by (simp add: closes_space)

lemma lazy_span_tag:
  "is_tag_char x \<Longrightarrow> spec_lazy_span req xs = None \<Longrightarrow> spec_lazy_span req (x # xs) = None"
  by (simp add: closes_tag)

lemma lazy_span_dropWhile_space:
  "spec_lazy_span False (dropWhile isspace s) = None \<Longrightarrow> spec_lazy_span False s = None"
  by (induction s) (auto simp add: lazy_span_space simp del: spec_lazy_span.simps split: if_splits)

lemma lazy_span_dropWhile_tag:
  "spec_lazy_span req (dropWhile is_tag_char s) = None \<Longrightarrow> spec_lazy_span req s = None"
  by (induction s) (auto simp add: lazy_span_tag simp del: spec_lazy_span.simps split: if_splits)

lemma run_after_tag:
  "first_of (run after_tag (s, g)) = first_of (run body (dropWhile isspace s, g))"
  unfolding after_tag_def run_Star
proof (rule greedy_then)
  fix x xs
  assume x: "isspace x" and "first_of (run body (dropWhile isspace xs, g)) = None"
  then have "spec_lazy_span False (dropWhile isspace xs) = None"
    by (simp add: run_body)
  then have "spec_lazy_span False xs = None"
    by (rule lazy_span_dropWhile_space)
  with x have "spec_lazy_span False (x # xs) = None"
    by (rule lazy_span_space)
  then show "first_of (run body (x # xs, g)) = None"
    by (simp add: run_body del: spec_lazy_span.simps)
qed

lemma run_NonCapture_Star:
  "run (Cat (NonCapture (Star C)) q) (s, g) = concat (map (\<lambda>r. run q (r, g)) (greedy_star C s))"
  by (simp add: comp_def)

lemma run_after_fence:
  "first_of (run after_fence (s, g)) =
     first_of (run body (dropWhile isspace (dropWhile is_tag_char s), g))"
proof -
  have "first_of (run after_fence (s, g)) = first_of (run after_tag (dropWhile is_tag_char s, g))"
    unfolding after_fence_def run_NonCapture_Star
  proof (rule greedy_then)
    fix x xs
    assume x: "is_tag_char x"
      and "first_of (run after_tag (dropWhile is_tag_char xs, g)) = None"
    then have "spec_lazy_span False (dropWhile isspace (dropWhile is_tag_char xs)) = None"
      by (simp add: run_after_tag run_body)
    then have "spec_lazy_span False (dropWhile is_tag_char xs) = None"
      by (rule lazy_span_dropWhile_space)
    then have "spec_lazy_span False xs = None"
      by (rule lazy_span_dropWhile_tag)
    with x have "spec_lazy_span False (x # xs) = None"
      by (rule lazy_span_tag)
    moreover have "dropWhile isspace (x # xs) = x # xs"
      using x by (simp add: is_tag_char_not_space)
    ultimately show "first_of (run after_tag (x # xs, g)) = None"
      by (simp add: run_after_tag run_body del: spec_lazy_span.simps)
  qed
  then show ?thesis by (simp add: run_after_tag)
qed

lemma run_fence_then:
  "run (Cat (Lit backtick) (Cat (Lit backtick) (Cat (Lit backtick) q))) (s, g) =
     (if starts_fence s then run q (drop 3 s, g) else [])"
proof (cases "starts_fence s")
  case True
  then obtain r where "s = fence @ r" by (auto simp add: starts_fence_iff)
  then show ?thesis by (simp add: fence_def starts_fence_def)
next
  case False
  have "run (Cat (Lit backtick) (Cat (Lit backtick) (Cat (Lit backtick) q))) (s, g) = []"
  proof (cases s)
    case Nil
    then show ?thesis by simp
  next
    case (Cons a s1)
    note s = this
    show ?thesis
    proof (cases s1)
      case Nil
      then show ?thesis using s by simp
    next
      case (Cons b s2)
      note s1 = this
      show ?thesis
      proof (cases s2)
        case Nil
        then show ?thesis using s s1 by simp
      next
        case (Cons c s3)
        then show ?thesis using s s1 False
          by (auto simp add: starts_fence_def fence_def)
      qed
    qed
  qed
  then show ?thesis using False by simp
qed

lemma code_regex_parts:
  "code_regex = Cat (Lit backtick) (Cat (Lit backtick) (Cat (Lit backtick) after_fence))"
  by (simp add: code_regex_def after_fence_def after_tag_def body_def closing_def fence3_def)

lemma first_of_run_code_regex:
  "first_of (run code_regex (s, g)) =
     (if starts_fence s then
        map_option (\<lambda>(c, r). (drop 3 (dropWhile isspace r), g(1 \<mapsto> c)))
          (spec_lazy_span False (dropWhile isspace (dropWhile is_tag_char (drop 3 s))))
      else None)"
  unfolding code_regex_parts run_fence_then
  by (simp add: run_after_fence run_body)

lemma match_at_first_of:
  "match_at p i s =
     map_option (\<lambda>(r, g). \<lparr>m_start = i, m_end = i + (length s - length r), m_groups = g\<rparr>)
       (first_of (run p (s, Map.empty)))"
  by (simp add: match_at_def first_of_def split: list.splits)

lemma match_at_code_regex: "match_at code_regex i s = spec_block_at False i s"
  unfolding match_at_first_of first_of_run_code_regex spec_block_at_def
  by (auto split: option.splits)

lemma search_from_code_regex: "search_from code_regex i s = spec_first_block_from False i s"
proof (induction s arbitrary: i)
  case Nil
  show ?case by (simp add: match_at_code_regex spec_block_at_def)
next
  case (Cons x xs)
  then show ?case by (simp add: match_at_code_regex split: option.splits)
qed

lemma search_code_regex: "search code_regex s = spec_first_block False s"
  by (simp add: search_def spec_first_block_def search_from_code_regex)

subsection \<open>Fences, stripping and the function\<close>

lemma fence_not_Nil [simp]: "fence \<noteq> []"
  by (simp add: fence_def)

lemma has_fence_iff: "has_fence s \<longleftrightarrow> (\<exists>a b. s = a @ fence @ b)"
proof (induction s)
  case Nil
  then show ?case by simp
next
  case (Cons x xs)
  show ?case
  proof
    assume "has_fence (x # xs)"
    then consider "starts_fence (x # xs)" | "has_fence xs" by auto
    then show "\<exists>a b. x # xs = a @ fence @ b"
    proof cases
      case 1
      then obtain r where "x # xs = [] @ fence @ r" by (auto simp add: starts_fence_iff)
      then show ?thesis by blast
    next
      case 2
      then obtain a b where "xs = a @ fence @ b" using Cons.IH by auto
      then have "x # xs = (x # a) @ fence @ b" by simp
      then show ?thesis by blast
    qed
  next
    assume "\<exists>a b. x # xs = a @ fence @ b"
    then obtain a b where ab: "x # xs = a @ fence @ b" by auto
    show "has_fence (x # xs)"
    proof (cases a)
      case Nil
      then have "starts_fence (x # xs)" using ab by (simp add: starts_fence_iff)
      then show ?thesis by simp
    next
      case (Cons y ys)
      then have "xs = ys @ fence @ b" using ab by simp
      then have "has_fence xs" using Cons.IH by auto
      then show ?thesis by simp
    qed
  qed
qed

lemma has_fence_appendI1: "has_fence a \<Longrightarrow> has_fence (a @ b)"
proof -
  assume "has_fence a"
  then obtain u v where "a = u @ fence @ v" by (auto simp add: has_fence_iff)
  then have "a @ b = u @ fence @ (v @ b)" by simp
  then show ?thesis unfolding has_fence_iff by blast
qed

lemma has_fence_appendI2: "has_fence b \<Longrightarrow> has_fence (a @ b)"
proof -
  assume "has_fence b"
  then obtain u v where "b = u @ fence @ v" by (auto simp add: has_fence_iff)
  then have "a @ b = (a @ u) @ fence @ v" by simp
  then show ?thesis unfolding has_fence_iff by blast
qed

lemma has_fence_dropWhile: "has_fence (dropWhile P s) \<Longrightarrow> has_fence s"
  using has_fence_appendI2 [of "dropWhile P s" "takeWhile P s"] by simp

lemma has_fence_drop: "has_fence (drop n s) \<Longrightarrow> has_fence s"
  using has_fence_appendI2 [of "drop n s" "take n s"] by simp

lemma rstrip_prefix: "s = rstrip s @ rev (takeWhile isspace (rev s))"
  by (metis rstrip_def rev_append rev_rev_ident takeWhile_dropWhile_id)

lemma has_fence_rstrip: "has_fence (rstrip s) \<Longrightarrow> has_fence s"
  using has_fence_appendI1 [of "rstrip s" "rev (takeWhile isspace (rev s))"] rstrip_prefix [of s]
  by simp

lemma has_fence_strip: "has_fence (strip s) \<Longrightarrow> has_fence s"
  unfolding strip_def lstrip_def
  using has_fence_rstrip has_fence_dropWhile by blast

lemma lazy_span_has_fence: "spec_lazy_span req s = Some cr \<Longrightarrow> has_fence s"
proof (induction s arbitrary: cr)
  case Nil
  then show ?case by simp
next
  case (Cons x xs)
  show ?case
  proof (cases "spec_closes req (x # xs)")
    case True
    then have "starts_fence (dropWhile isspace (x # xs))"
      by (simp add: spec_closes_def split: if_splits)
    then have "has_fence (dropWhile isspace (x # xs))"
      by (cases "dropWhile isspace (x # xs)") simp_all
    then show ?thesis by (rule has_fence_dropWhile)
  next
    case False
    then obtain cr' where "spec_lazy_span req xs = Some cr'"
      using Cons.prems by auto
    then have "has_fence xs" by (rule Cons.IH)
    then show ?thesis by simp
  qed
qed

lemma block_at_Some:
  assumes "spec_block_at req i s = Some m"
  shows "starts_fence s" and "has_fence (drop 3 s)"
proof -
  show sf: "starts_fence s"
    using assms by (simp add: spec_block_at_def split: if_splits)
  then obtain cr where "spec_lazy_span req (dropWhile isspace (dropWhile is_tag_char (drop 3 s))) = Some cr"
    using assms by (auto simp add: spec_block_at_def split: option.splits)
  then have "has_fence (dropWhile isspace (dropWhile is_tag_char (drop 3 s)))"
    by (rule lazy_span_has_fence)
  then show "has_fence (drop 3 s)"
    using has_fence_dropWhile by blast
qed

lemma first_block_from_no_fence:
  "\<not> has_fence s \<Longrightarrow> spec_first_block_from req i s = None"
proof (induction s arbitrary: i)
  case Nil
  then show ?case by simp
next
  case (Cons x xs)
  then have "spec_block_at req i (x # xs) = None"
    by (simp add: spec_block_at_def)
  then show ?case using Cons by simp
qed

lemma search_no_fence: "\<not> has_fence s \<Longrightarrow> search code_regex s = None"
  by (simp add: search_code_regex spec_first_block_def first_block_from_no_fence)

lemma parse_and_clean_code_PyStr:
  "fst (parse_and_clean_code (PyStr s) (Writable out)) =
     (case search code_regex (strip s) of
        Some m \<Rightarrow> (case m_groups m 1 of Some g \<Rightarrow> Inr (strip g) | None \<Rightarrow> Inl AttributeError)
      | None \<Rightarrow> Inr (strip s))"
  by (simp add: parse_and_clean_code_def group_def split: option.splits)

lemma parse_and_clean_code_coerce:
  "py_str v = Inr t \<Longrightarrow>
   fst (parse_and_clean_code v (Writable out)) = fst (parse_and_clean_code (PyStr t) (Writable out'))"
  by (cases v) (simp_all add: parse_and_clean_code_def split: option.splits)

lemma parse_and_clean_code_str_raises:
  "\<not> isinstance_str v \<Longrightarrow> py_str v = Inl e \<Longrightarrow>
   fst (parse_and_clean_code v (Writable out)) = Inl e"
  by (simp add: parse_and_clean_code_def)

lemma parse_and_clean_code_print_raises:
  "parse_and_clean_code v (Unwritable e) = (Inl e, Unwritable e)"
  by (simp add: parse_and_clean_code_def)

lemma has_fence_Cons_other: "x \<noteq> backtick \<Longrightarrow> has_fence (x # s) = has_fence s"
  using starts_fence_hd by auto

lemma starts_fence_long:
  "3 \<le> length a \<Longrightarrow> starts_fence (a @ b) = starts_fence a"
  by (simp add: starts_fence_def)

lemma starts_fence_append2:
  assumes "starts_fence (a @ fence @ r)" "a \<noteq> []"
  shows "has_fence (a @ [backtick, backtick])"
proof -
  have "a @ fence @ r = (a @ [backtick, backtick]) @ (backtick # r)"
    by (simp add: fence_def)
  moreover have "3 \<le> length (a @ [backtick, backtick])"
    using assms(2) by (cases a) simp_all
  ultimately have "starts_fence (a @ [backtick, backtick])"
    using assms(1) starts_fence_long by metis
  then show ?thesis
    using assms(2) by (cases a) simp_all
qed

lemma dropWhile_before:
  "\<not> P y \<Longrightarrow> dropWhile P (u @ y # p) = dropWhile P u @ y # p"
  by (induction u) simp_all

lemma lstrip_before_fence: "lstrip (u @ fence @ p) = lstrip u @ fence @ p"
  by (simp add: lstrip_def fence_def dropWhile_before)

lemma rstrip_after_fence: "rstrip (a @ fence @ u) = a @ fence @ rstrip u"
proof -
  have "rstrip (a @ fence @ u) =
      rev (dropWhile isspace (rev u @ backtick # (backtick # backtick # rev a)))"
    by (simp add: rstrip_def fence_def)
  also have "\<dots> = rev (dropWhile isspace (rev u) @ backtick # (backtick # backtick # rev a))"
    by (simp only: dropWhile_before [of isspace backtick, OF isspace_backtick])
  also have "\<dots> = a @ fence @ rstrip u"
    by (simp add: rstrip_def fence_def)
  finally show ?thesis .
qed

lemma strip_around_fence:
  "strip (pre @ fence @ rest) = lstrip pre @ fence @ rstrip rest"
  by (simp add: strip_def lstrip_before_fence rstrip_after_fence)

lemma has_fence_lstrip_append: "has_fence (lstrip a @ b) \<Longrightarrow> has_fence (a @ b)"
proof -
  assume "has_fence (lstrip a @ b)"
  then have "has_fence (takeWhile isspace a @ (lstrip a @ b))"
    by (rule has_fence_appendI2)
  moreover have "takeWhile isspace a @ (lstrip a @ b) = a @ b"
    by (simp add: lstrip_def)
  ultimately show ?thesis by simp
qed

lemma first_block_from_skip:
  "\<not> has_fence (pre @ [backtick, backtick]) \<Longrightarrow>
   spec_first_block_from req i (pre @ fence @ rest) = spec_first_block_from req (i + length pre) (fence @ rest)"
proof (induction pre arbitrary: i)
  case Nil
  then show ?case by simp
next
  case (Cons x pre)
  have "\<not> starts_fence ((x # pre) @ fence @ rest)"
    using starts_fence_append2 [of "x # pre" rest] Cons.prems by blast
  then have "spec_block_at req i ((x # pre) @ fence @ rest) = None"
    by (simp add: spec_block_at_def)
  moreover have "\<not> has_fence (pre @ [backtick, backtick])"
    using Cons.prems by simp
  ultimately show ?case
    using Cons.IH [of "Suc i"] by simp
qed

lemma first_block_from_no_second:
  "\<not> has_fence (drop 3 s) \<Longrightarrow> spec_first_block_from req i s = None"
proof (induction s arbitrary: i)
  case Nil
  then show ?case by simp
next
  case (Cons x xs)
  have "spec_block_at req i (x # xs) = None"
    using block_at_Some(2) [of req i "x # xs"] Cons.prems by (cases "spec_block_at req i (x # xs)") auto
  moreover have "\<not> has_fence (drop 3 xs)"
  proof
    assume "has_fence (drop 3 xs)"
    moreover have "drop 1 (drop 2 xs) = drop 3 xs" by (simp add: numeral_3_eq_3)
    ultimately have "has_fence (drop 1 (drop 2 xs))" by simp
    then have "has_fence (drop 2 xs)" by (rule has_fence_drop)
    then show False using Cons.prems by simp
  qed
  ultimately show ?case using Cons.IH by simp
qed

lemma first_block_no_closing:
  assumes "\<not> has_fence (pre @ [backtick, backtick])" "\<not> has_fence rest"
  shows "spec_first_block req (pre @ fence @ rest) = None"
proof -
  have "drop 3 (fence @ rest) = rest" by (simp add: fence_def)
  then have "spec_first_block_from req (0 + length pre) (fence @ rest) = None"
    using assms(2) first_block_from_no_second by metis
  then show ?thesis
    using first_block_from_skip [OF assms(1), of req 0 rest] by (simp add: spec_first_block_def)
qed

lemma rstrip_all_space: "dropWhile isspace s = [] \<Longrightarrow> rstrip s = []"
  by (simp add: rstrip_def)

lemma rstrip_Cons: "dropWhile isspace (x # s) \<noteq> [] \<Longrightarrow> rstrip (x # s) = x # rstrip s"
proof (cases "\<forall>y \<in> set s. isspace y")
  case True
  assume "dropWhile isspace (x # s) \<noteq> []"
  with True have "\<not> isspace x" by (auto split: if_splits)
  moreover have "dropWhile isspace (rev s @ [x]) = dropWhile isspace [x]"
    by (rule dropWhile_append2) (use True in auto)
  moreover have "dropWhile isspace (rev s) = []"
    using True by simp
  ultimately show ?thesis by (simp add: rstrip_def)
next
  case False
  then obtain y where "y \<in> set (rev s)" "\<not> isspace y" by auto
  then have "dropWhile isspace (rev s @ [x]) = dropWhile isspace (rev s) @ [x]"
    by (rule dropWhile_append1)
  then show ?thesis by (simp add: rstrip_def)
qed

lemma lstrip_rstrip: "lstrip t = t \<Longrightarrow> lstrip (rstrip t) = rstrip t"
proof (cases t)
  case Nil
  then show ?thesis by (simp add: lstrip_def rstrip_def)
next
  case (Cons x s)
  assume "lstrip t = t"
  then have keep: "dropWhile isspace (x # s) = x # s"
    using Cons by (simp add: lstrip_def)
  have "\<not> isspace x"
  proof
    assume "isspace x"
    then have "dropWhile isspace s = x # s" using keep by simp
    moreover have "length (dropWhile isspace s) \<le> length s" by (rule length_dropWhile_le)
    ultimately show False by simp
  qed
  moreover have "rstrip (x # s) = x # rstrip s"
    using keep by (simp add: rstrip_Cons)
  ultimately show ?thesis using Cons by (simp add: lstrip_def)
qed

lemma rstrip_rstrip: "rstrip (rstrip t) = rstrip t"
  by (simp add: rstrip_def)

lemma lstrip_lstrip: "lstrip (lstrip t) = lstrip t"
  by (simp add: lstrip_def)

lemma strip_strip: "strip (strip s) = strip s"
  by (simp add: strip_def lstrip_rstrip lstrip_lstrip rstrip_rstrip)

lemma strip_space_Cons: "isspace x \<Longrightarrow> strip (x # s) = strip s"
  by (simp add: strip_def lstrip_def)

lemma strip_space_snoc: "isspace y \<Longrightarrow> strip (s @ [y]) = strip s"
proof (cases "\<forall>x \<in> set s. isspace x")
  case True
  assume y: "isspace y"
  have "dropWhile isspace (s @ [y]) = []"
    using True y by simp
  moreover have "dropWhile isspace s = []"
    using True by simp
  ultimately show ?thesis by (simp only: strip_def lstrip_def)
next
  case False
  assume y: "isspace y"
  from False obtain x where "x \<in> set s" "\<not> isspace x" by auto
  then have "dropWhile isspace (s @ [y]) = dropWhile isspace s @ [y]"
    by (rule dropWhile_append1)
  then show ?thesis using y by (simp add: strip_def lstrip_def rstrip_def)
qed

subsection \<open>The captured span\<close>

lemma lazy_span_split: "spec_lazy_span req s = Some (c, r) \<Longrightarrow> s = c @ r"
proof (induction s arbitrary: c)
  case Nil
  then show ?case by simp
next
  case (Cons x xs)
  show ?case
  proof (cases "spec_closes req (x # xs)")
    case True
    then show ?thesis using Cons.prems by simp
  next
    case False
    then obtain c' where "spec_lazy_span req xs = Some (c', r)" "c = x # c'"
      using Cons.prems by (cases "spec_lazy_span req xs") auto
    then show ?thesis using Cons.IH by simp
  qed
qed

lemma closes_starts_fence: "starts_fence s \<Longrightarrow> spec_closes False s"
proof -
  assume sf: "starts_fence s"
  then obtain r where "s = backtick # backtick # backtick # r"
    by (auto simp add: starts_fence_iff fence_def)
  then have "dropWhile isspace s = s" by simp
  then show ?thesis using sf by (simp add: spec_closes_def)
qed

lemma lazy_span_no_fence: "spec_lazy_span False s = Some (c, r) \<Longrightarrow> \<not> has_fence c"
proof (induction s arbitrary: c)
  case Nil
  then show ?case by simp
next
  case (Cons x xs)
  show ?case
  proof (cases "spec_closes False (x # xs)")
    case True
    then show ?thesis using Cons.prems by simp
  next
    case False
    then obtain c' where c': "spec_lazy_span False xs = Some (c', r)" "c = x # c'"
      using Cons.prems by (cases "spec_lazy_span False xs") auto
    have "\<not> has_fence c'" using c'(1) by (rule Cons.IH)
    moreover have "\<not> starts_fence (x # c')"
    proof
      assume sf: "starts_fence (x # c')"
      then have "3 \<le> length (x # c')"
        by (auto simp add: starts_fence_iff fence_def)
      then have "starts_fence ((x # c') @ r)"
        using sf by (simp only: starts_fence_long)
      moreover have "x # xs = (x # c') @ r"
        using lazy_span_split [OF c'(1)] by simp
      ultimately have "spec_closes False (x # xs)"
        using closes_starts_fence by simp
      then show False using False by simp
    qed
    ultimately show ?thesis using c'(2) by simp
  qed
qed

lemma block_at_groups:
  assumes "spec_block_at False i s = Some m"
  shows "\<exists>g. m_groups m 1 = Some g \<and> \<not> has_fence g"
proof -
  from assms obtain c r where
    cr: "spec_lazy_span False (dropWhile isspace (dropWhile is_tag_char (drop 3 s))) = Some (c, r)"
    and m: "m_groups m = [1 \<mapsto> c]"
    by (auto simp add: spec_block_at_def split: if_splits option.splits)
  from cr have "\<not> has_fence c" by (rule lazy_span_no_fence)
  then show ?thesis using m by simp
qed

lemma first_block_from_groups:
  "spec_first_block_from False i s = Some m \<Longrightarrow> \<exists>g. m_groups m 1 = Some g \<and> \<not> has_fence g"
proof (induction s arbitrary: i)
  case Nil
  then show ?case by simp
next
  case (Cons x xs)
  show ?case
  proof (cases "spec_block_at False i (x # xs)")
    case None
    then show ?thesis using Cons by simp
  next
    case (Some m')
    then have "m' = m" using Cons.prems by simp
    then show ?thesis using Some block_at_groups by blast
  qed
qed

lemma search_groups:
  "search code_regex s = Some m \<Longrightarrow> \<exists>g. m_groups m 1 = Some g \<and> \<not> has_fence g"
  using first_block_from_groups [of 0 s m]
  by (simp add: search_code_regex spec_first_block_def)

text \<open>The span before the first closing fence.\<close>

lemma lazy_span_before_fence:
  "\<not> has_fence (u @ [backtick, backtick]) \<Longrightarrow>
   \<exists>r. spec_lazy_span False (u @ fence @ post) = Some (rstrip u, r)"
proof (induction u)
  case Nil
  have "spec_closes False (fence @ post)"
    by (rule closes_starts_fence) simp
  then show ?case by (simp add: fence_def rstrip_def)
next
  case (Cons x u)
  have no: "\<not> has_fence (u @ [backtick, backtick])"
    using Cons.prems by simp
  show ?case
  proof (cases "dropWhile isspace (x # u) = []")
    case True
    then have "dropWhile isspace ((x # u) @ fence @ post) = fence @ post"
      using lstrip_before_fence [of "x # u" post] by (simp add: lstrip_def)
    then have "spec_closes False ((x # u) @ fence @ post)"
      by (simp add: spec_closes_def)
    then show ?thesis
      using rstrip_all_space [OF True] by simp
  next
    case False
    have "\<not> spec_closes False ((x # u) @ fence @ post)"
    proof
      assume "spec_closes False ((x # u) @ fence @ post)"
      then have "starts_fence (lstrip (x # u) @ fence @ post)"
        using lstrip_before_fence [of "x # u" post] by (simp add: spec_closes_def lstrip_def)
      then have "has_fence (lstrip (x # u) @ [backtick, backtick])"
        using False by (intro starts_fence_append2) (simp_all add: lstrip_def)
      then have "has_fence ((x # u) @ [backtick, backtick])"
        by (rule has_fence_lstrip_append)
      then show False using Cons.prems by simp
    qed
    moreover obtain r where "spec_lazy_span False (u @ fence @ post) = Some (rstrip u, r)"
      using Cons.IH [OF no] by auto
    ultimately show ?thesis
      using rstrip_Cons [OF False] by simp
  qed
qed

subsection \<open>A fenced block, and a fence that is never closed\<close>

lemma starts_fence_sep:
  assumes "y \<noteq> backtick" "starts_fence (a @ y # b)"
  shows "starts_fence a"
proof (cases a)
  case Nil
  then show ?thesis using assms starts_fence_hd by auto
next
  case (Cons a1 as)
  note a = this
  show ?thesis
  proof (cases as)
    case Nil
    then show ?thesis using assms a by (simp add: starts_fence_def fence_def)
  next
    case (Cons a2 as')
    note as = this
    show ?thesis
    proof (cases as')
      case Nil
      then show ?thesis using assms a as by (simp add: starts_fence_def fence_def)
    next
      case (Cons a3 as'')
      then show ?thesis using assms a as by (simp add: starts_fence_def fence_def)
    qed
  qed
qed

lemma has_fence_sep:
  "y \<noteq> backtick \<Longrightarrow> \<not> has_fence a \<Longrightarrow> \<not> has_fence b \<Longrightarrow> \<not> has_fence (a @ y # b)"
proof (induction a)
  case Nil
  then show ?case using starts_fence_hd by auto
next
  case (Cons x a)
  have "\<not> starts_fence ((x # a) @ y # b)"
    using starts_fence_sep [OF Cons.prems(1), of "x # a" b] Cons.prems(2) by auto
  then show ?case using Cons by simp
qed

lemma dropWhile_tag_code:
  assumes "\<forall>c \<in> set lang. is_tag_char c" "takeWhile is_tag_char code = []"
  shows "dropWhile is_tag_char (lang @ code @ fence @ post) = code @ fence @ post"
proof -
  have "dropWhile is_tag_char (lang @ code @ fence @ post) = dropWhile is_tag_char (code @ fence @ post)"
    by (rule dropWhile_append2) (use assms(1) in auto)
  also have "\<dots> = code @ fence @ post"
  proof (cases code)
    case Nil
    then show ?thesis by (simp add: fence_def)
  next
    case (Cons x xs)
    then have "\<not> is_tag_char x" using assms(2) by (auto split: if_splits)
    then show ?thesis using Cons by simp
  qed
  finally show ?thesis .
qed

lemma block_at_fenced:
  assumes "\<forall>c \<in> set lang. is_tag_char c" "takeWhile is_tag_char code = []"
    and "\<not> has_fence (code @ [backtick, backtick])"
  shows "\<exists>m. spec_block_at False i (fence @ lang @ code @ fence @ post) = Some m \<and>
    m_groups m 1 = Some (strip code)"
proof -
  have "drop 3 (fence @ lang @ code @ fence @ post) = lang @ code @ fence @ post"
    by (simp add: fence_def)
  then have "dropWhile isspace (dropWhile is_tag_char (drop 3 (fence @ lang @ code @ fence @ post))) =
      lstrip code @ fence @ post"
    using dropWhile_tag_code [OF assms(1,2), of post] lstrip_before_fence [of code post]
    by (simp add: lstrip_def)
  moreover have "\<not> has_fence (lstrip code @ [backtick, backtick])"
    using assms(3) has_fence_lstrip_append by blast
  then obtain r where "spec_lazy_span False (lstrip code @ fence @ post) = Some (rstrip (lstrip code), r)"
    using lazy_span_before_fence by blast
  ultimately show ?thesis
    by (simp add: spec_block_at_def strip_def)
qed

lemma first_block_fenced:
  assumes "\<not> has_fence (pre @ [backtick, backtick])"
    and "\<forall>c \<in> set lang. is_tag_char c" "takeWhile is_tag_char code = []"
    and "\<not> has_fence (code @ [backtick, backtick])"
  shows "\<exists>m. spec_first_block False (pre @ fence @ lang @ code @ fence @ post) = Some m \<and>
    m_groups m 1 = Some (strip code)"
proof -
  obtain m where m: "spec_block_at False (0 + length pre) (fence @ lang @ code @ fence @ post) = Some m"
    "m_groups m 1 = Some (strip code)"
    using block_at_fenced [OF assms(2,3,4)] by blast
  have "fence @ lang @ code @ fence @ post \<noteq> []" by simp
  then obtain x xs where "fence @ lang @ code @ fence @ post = x # xs"
    by (cases "fence @ lang @ code @ fence @ post") auto
  then have "spec_first_block_from False (0 + length pre) (fence @ lang @ code @ fence @ post) = Some m"
    using m(1) by simp
  then have "spec_first_block False (pre @ fence @ lang @ code @ fence @ post) = Some m"
    using first_block_from_skip [OF assms(1), of False 0 "lang @ code @ fence @ post"]
    by (simp add: spec_first_block_def)
  then show ?thesis using m(2) by blast
qed

lemma fenced_result:
  assumes "strip s = pre @ fence @ lang @ code @ fence @ post"
    and "\<not> has_fence (pre @ [backtick, backtick])"
    and "\<forall>c \<in> set lang. is_tag_char c" "takeWhile is_tag_char code = []"
    and "\<not> has_fence (code @ [backtick, backtick])"
  shows "fst (parse_and_clean_code (PyStr s) (Writable out)) = Inr (strip code)"
proof -
  obtain m where "search code_regex (strip s) = Some m" "m_groups m 1 = Some (strip code)"
    using first_block_fenced [OF assms(2-5), of post] assms(1)
    by (auto simp add: search_code_regex)
  then show ?thesis
    by (simp add: parse_and_clean_code_PyStr strip_strip)
qed

lemma no_closing_result:
  assumes "\<not> has_fence (pre @ [backtick, backtick])" "\<not> has_fence rest"
  shows "fst (parse_and_clean_code (PyStr (pre @ fence @ rest)) (Writable out)) = Inr (strip (pre @ fence @ rest))"
proof -
  have "\<not> has_fence (lstrip pre @ [backtick, backtick])"
    using assms(1) has_fence_lstrip_append by blast
  moreover have "\<not> has_fence (rstrip rest)"
    using assms(2) has_fence_rstrip by blast
  ultimately have "spec_first_block False (lstrip pre @ fence @ rstrip rest) = None"
    by (rule first_block_no_closing)
  then show ?thesis
    by (simp add: parse_and_clean_code_PyStr search_code_regex strip_around_fence)
qed

lemma no_fence_result:
  "\<not> has_fence s \<Longrightarrow> fst (parse_and_clean_code (PyStr s) (Writable out)) = Inr (strip s)"
proof -
  assume "\<not> has_fence s"
  then have "\<not> has_fence (strip s)" using has_fence_strip by blast
  then show ?thesis
    by (simp add: parse_and_clean_code_PyStr search_no_fence)
qed

subsection \<open>Results of the function\<close>

lemma result_is_string:
  "\<exists>c. fst (parse_and_clean_code (PyStr s) (Writable out)) = Inr c"
proof (cases "search code_regex (strip s)")
  case None
  then show ?thesis by (simp add: parse_and_clean_code_PyStr)
next
  case (Some m)
  then obtain g where "m_groups m 1 = Some g"
    using search_groups by blast
  then show ?thesis using Some by (simp add: parse_and_clean_code_PyStr)
qed

lemma result_stripped:
  "fst (parse_and_clean_code (PyStr s) (Writable out)) = Inr c \<Longrightarrow> strip c = c"
  by (auto simp add: parse_and_clean_code_PyStr strip_strip split: option.splits)

lemma clean_result_fixed:
  assumes "fst (parse_and_clean_code (PyStr s) (Writable out)) = Inr c" "\<not> has_fence c"
  shows "fst (parse_and_clean_code (PyStr c) (Writable out')) = Inr c"
  using no_fence_result [OF assms(2), of out'] result_stripped [OF assms(1)] by simp

lemma match_result_no_fence:
  assumes "search code_regex (strip s) = Some m"
  shows "\<exists>g. m_groups m 1 = Some g \<and> \<not> has_fence g \<and>
    fst (parse_and_clean_code (PyStr s) (Writable out)) = Inr (strip g) \<and> \<not> has_fence (strip g)"
proof -
  obtain g where g: "m_groups m 1 = Some g" "\<not> has_fence g"
    using search_groups [OF assms] by blast
  then have "\<not> has_fence (strip g)"
    using has_fence_strip by blast
  then show ?thesis
    using g assms by (simp add: parse_and_clean_code_PyStr)
qed

lemma length_digits_le: "0 < k \<Longrightarrow> n < 10 ^ k \<Longrightarrow> length (digits n) \<le> k"
proof (induction k arbitrary: n)
  case 0
  then show ?case by simp
next
  case (Suc k)
  show ?case
  proof (cases "n < 10")
    case True
    then show ?thesis by (simp add: digits.simps)
  next
    case False
    then have k: "0 < k" using Suc.prems by (cases k) simp_all
    have "n div 10 < 10 ^ k" using Suc.prems(2) by (simp add: less_mult_imp_div_less)
    then have "length (digits (n div 10)) \<le> k" using k by (rule Suc.IH [rotated])
    moreover have "digits n = digits (n div 10) @ [48 + n mod 10]"
      using False by (subst digits.simps) simp
    ultimately show ?thesis by simp
  qed
qed

lemma length_digits_power10: "length (digits (10 ^ k)) = Suc k"
proof (induction k)
  case 0
  show ?case by (simp add: digits.simps)
next
  case (Suc k)
  have "(10::nat) \<le> 10 ^ Suc k" by simp
  then have "digits (10 ^ Suc k) = digits (10 ^ Suc k div 10) @ [48 + 10 ^ Suc k mod 10]"
    by (subst digits.simps) simp
  then show ?case using Suc by simp
qed

lemma py_str_power10:
  "int_max_str_digits < Suc k \<Longrightarrow> py_str (PyInt (10 ^ k)) = Inl ValueError"
proof -
  assume "int_max_str_digits < Suc k"
  then show ?thesis
    by (simp add: nat_power_eq length_digits_power10)
qed


lemma strip_between_newlines: "strip (newline # code @ [newline]) = strip code"
proof -
  have nl: "isspace newline" by (simp add: isspace_def newline_def)
  have "strip ((newline # code) @ [newline]) = strip (newline # code)"
    using nl by (rule strip_space_snoc)
  then show ?thesis using nl by (simp add: strip_space_Cons)
qed

lemmas eval_text = text_of_def backtick_def newline_def fence_def starts_fence_def
  is_tag_char_def isspace_def any_char_def strip_def lstrip_def rstrip_def

lemmas eval_search = search_def match_at_def code_regex_def

section \<open>The claims\<close>

text \<open>
  Claim C1. For every string \<open>s\<close> whose trimmed form is exactly three backticks, a tag
  \<open>lang\<close> of letters, digits and underscores (possibly empty), a newline, a text \<open>code\<close>
  without a triple backtick, a newline and three backticks, \<open>parse_and_clean_code(s)\<close>
  returns \<open>code\<close> trimmed.
\<close>

theorem fenced_with_newlines:
  assumes "strip s = fence @ lang @ [newline] @ code @ [newline] @ fence"
    and "list_all is_tag_char lang"
    and "\<not> has_fence code"
  shows "fst (parse_and_clean_code (PyStr s) (Writable out)) = Inr (strip code)"
proof -
  have nl: "newline \<noteq> backtick" "\<not> is_tag_char newline"
    by (simp_all add: newline_def backtick_def is_tag_char_def)
  have "\<not> has_fence [backtick, backtick]"
    by (simp add: starts_fence_def fence_def)
  then have "\<not> has_fence (code @ newline # [backtick, backtick])"
    using nl(1) assms(3) by (intro has_fence_sep)
  then have "\<not> has_fence ((newline # code @ [newline]) @ [backtick, backtick])"
    using nl(1) by (simp add: has_fence_Cons_other del: has_fence.simps)
  moreover have "takeWhile is_tag_char (newline # code @ [newline]) = []"
    using nl(2) by simp
  moreover have "\<not> has_fence ([] @ [backtick, backtick])"
    by (simp add: starts_fence_def fence_def)
  moreover have "strip s = [] @ fence @ lang @ (newline # code @ [newline]) @ fence @ []"
    using assms(1) by simp
  moreover have "\<forall>c \<in> set lang. is_tag_char c"
    using assms(2) by (simp add: list_all_iff)
  ultimately have "fst (parse_and_clean_code (PyStr s) (Writable out)) = Inr (strip (newline # code @ [newline]))"
    using fenced_result [of s "[]" lang "newline # code @ [newline]" "[]" out] by blast
  then show ?thesis by (simp only: strip_between_newlines)
qed

theorem fenced_with_newlines_witness:
  "strip (text_of ''  ```py\<newline>  x = `1`\<newline>```\<newline>'') =
     fence @ text_of ''py'' @ [newline] @ text_of ''  x = `1`'' @ [newline] @ fence \<and>
   list_all is_tag_char (text_of ''py'') \<and>
   \<not> has_fence (text_of ''  x = `1`'') \<and>
   fst (parse_and_clean_code (PyStr (text_of ''  ```py\<newline>  x = `1`\<newline>```\<newline>'')) (Writable [])) =
     Inr (text_of ''x = `1`'')"
  using fenced_with_newlines [of "text_of ''  ```py\<newline>  x = `1`\<newline>```\<newline>''"
      "text_of ''py''" "text_of ''  x = `1`''" "[]"]
  by (simp add: eval_text)

text \<open>
  Claim C2. Only the first fenced block counts. When the trimmed input is any text \<open>pre\<close>,
  the first three backticks of the input, a tag \<open>lang\<close>, a text \<open>code\<close> that does not start
  with a tag character, the next three backticks, and any text \<open>post\<close> (prose or further
  blocks), the result is \<open>code\<close> trimmed, whatever \<open>pre\<close> and \<open>post\<close> are. In particular the
  two inputs of the specification give \<open>X\<close> and the component's line.
\<close>

theorem first_block_only:
  "(strip s = pre @ fence @ lang @ code @ fence @ post \<and>
    \<not> has_fence (pre @ [backtick, backtick]) \<and>
    list_all is_tag_char lang \<and> takeWhile is_tag_char code = [] \<and>
    \<not> has_fence (code @ [backtick, backtick]) \<longrightarrow>
    fst (parse_and_clean_code (PyStr s) (Writable out)) = Inr (strip code)) \<and>
   fst (parse_and_clean_code
     (PyStr (text_of ''```a\<newline>X\<newline>``` trailing ```b\<newline>Y\<newline>```'')) (Writable out)) =
     Inr (text_of ''X'') \<and>
   fst (parse_and_clean_code
     (PyStr (text_of
       ''Here is your code:\<newline>```tsx\<newline>const PageComponent = () => { return null; };\<newline>```\<newline>'')) (Writable out)) =
     Inr (text_of ''const PageComponent = () => { return null; };'')"
proof (intro conjI impI)
  assume a: "strip s = pre @ fence @ lang @ code @ fence @ post \<and>
    \<not> has_fence (pre @ [backtick, backtick]) \<and>
    list_all is_tag_char lang \<and> takeWhile is_tag_char code = [] \<and>
    \<not> has_fence (code @ [backtick, backtick])"
  then have "\<forall>c \<in> set lang. is_tag_char c" by (simp add: list_all_iff)
  then show "fst (parse_and_clean_code (PyStr s) (Writable out)) = Inr (strip code)"
    using a fenced_result [of s pre lang code post out] by blast
next
  show "fst (parse_and_clean_code
     (PyStr (text_of ''```a\<newline>X\<newline>``` trailing ```b\<newline>Y\<newline>```'')) (Writable out)) =
     Inr (text_of ''X'')"
    unfolding parse_and_clean_code_PyStr by (simp add: eval_text eval_search)
next
  show "fst (parse_and_clean_code
     (PyStr (text_of
       ''Here is your code:\<newline>```tsx\<newline>const PageComponent = () => { return null; };\<newline>```\<newline>'')) (Writable out)) =
     Inr (text_of ''const PageComponent = () => { return null; };'')"
    unfolding parse_and_clean_code_PyStr by (simp add: eval_text eval_search)
qed

theorem first_block_only_witness:
  "strip (text_of ''Sure:\<newline>```js\<newline>let a;\<newline>```\<newline>and\<newline>```\<newline>let b;\<newline>```'') =
     text_of ''Sure:\<newline>'' @ fence @ text_of ''js'' @ text_of ''\<newline>let a;\<newline>'' @ fence @
     text_of ''\<newline>and\<newline>```\<newline>let b;\<newline>```'' \<and>
   \<not> has_fence (text_of ''Sure:\<newline>'' @ [backtick, backtick]) \<and>
   list_all is_tag_char (text_of ''js'') \<and>
   takeWhile is_tag_char (text_of ''\<newline>let a;\<newline>'') = [] \<and>
   \<not> has_fence (text_of ''\<newline>let a;\<newline>'' @ [backtick, backtick]) \<and>
   fst (parse_and_clean_code
     (PyStr (text_of ''Sure:\<newline>```js\<newline>let a;\<newline>```\<newline>and\<newline>```\<newline>let b;\<newline>```'')) (Writable [])) =
     Inr (text_of ''let a;'')"
  using first_block_only [of
      "text_of ''Sure:\<newline>```js\<newline>let a;\<newline>```\<newline>and\<newline>```\<newline>let b;\<newline>```''"
      "text_of ''Sure:\<newline>''" "text_of ''js''" "text_of ''\<newline>let a;\<newline>''"
      "text_of ''\<newline>and\<newline>```\<newline>let b;\<newline>```''" "[]"]
  by (simp add: eval_text)

text \<open>
  Claim C3. For every string \<open>s\<close> that contains no triple backtick,
  \<open>parse_and_clean_code(s)\<close> returns \<open>s\<close> with its leading and trailing whitespace removed.
\<close>

theorem no_fence_returns_stripped:
  assumes "\<not> has_fence s"
  shows "fst (parse_and_clean_code (PyStr s) (Writable out)) = Inr (strip s)"
proof -
  have "\<not> has_fence (strip s)"
    using assms has_fence_strip by blast
  then have "search code_regex (strip s) = None"
    by (rule search_no_fence)
  then show ?thesis
    by (simp add: parse_and_clean_code_PyStr)
qed

theorem no_fence_returns_stripped_witness:
  "\<not> has_fence (text_of ''  const x = `1`;\<newline> '') \<and>
   fst (parse_and_clean_code (PyStr (text_of ''  const x = `1`;\<newline> '')) (Writable [])) =
     Inr (text_of ''const x = `1`;'')"
  using no_fence_returns_stripped [of "text_of ''  const x = `1`;\<newline> ''" "[]"]
  by (simp add: eval_text)

text \<open>
  Claim C4. For every input with an opening fence and no closing one (the text \<open>pre\<close>
  before its first three backticks, and after them a text \<open>rest\<close> without a triple
  backtick), the function returns the whole trimmed input, the fence included. In
  particular the unclosed \<open>js\<close> block of the specification is returned as it is.
\<close>

theorem no_closing_fence:
  "(\<not> has_fence (pre @ [backtick, backtick]) \<and> \<not> has_fence rest \<longrightarrow>
    fst (parse_and_clean_code (PyStr (pre @ fence @ rest)) (Writable out)) =
      Inr (strip (pre @ fence @ rest))) \<and>
   fst (parse_and_clean_code (PyStr (text_of ''```js\<newline>const x = 1;'')) (Writable out)) =
     Inr (text_of ''```js\<newline>const x = 1;'')"
proof (intro conjI impI)
  assume "\<not> has_fence (pre @ [backtick, backtick]) \<and> \<not> has_fence rest"
  then show "fst (parse_and_clean_code (PyStr (pre @ fence @ rest)) (Writable out)) =
      Inr (strip (pre @ fence @ rest))"
    using no_closing_result by blast
next
  show "fst (parse_and_clean_code (PyStr (text_of ''```js\<newline>const x = 1;'')) (Writable out)) =
     Inr (text_of ''```js\<newline>const x = 1;'')"
    unfolding parse_and_clean_code_PyStr by (simp add: eval_text eval_search)
qed

theorem no_closing_fence_witness:
  "\<not> has_fence (text_of '' see `` '' @ [backtick, backtick]) \<and>
   \<not> has_fence (text_of ''`js\<newline>foo ``  '') \<and>
   fst (parse_and_clean_code
     (PyStr (text_of '' see `` '' @ fence @ text_of ''`js\<newline>foo ``  '')) (Writable [])) =
     Inr (text_of ''see `` ````js\<newline>foo ``'')"
  using no_closing_fence [of "text_of '' see `` ''" "text_of ''`js\<newline>foo ``  ''" "[]"]
  by (simp add: eval_text)

text \<open>
  Claim C5, as amended. The search of \<open>code_regex\<close> finds, for every input, exactly the
  first block the specification describes (same start, same end, same captured span)
  when the whitespace before the closing three backticks is optional: three backticks,
  the run of tag characters right after them, any whitespace, then the shortest span
  after which come zero or more whitespace characters and three backticks.
\<close>

theorem search_finds_first_block:
  "search code_regex s = spec_first_block False s"
proof -
  have "search_from code_regex 0 s = spec_first_block_from False 0 s"
    by (rule search_from_code_regex)
  then show ?thesis
    by (simp add: search_def spec_first_block_def)
qed

theorem search_finds_first_block_witness:
  "search code_regex (text_of ''```js\<newline>x```'') =
     Some \<lparr>m_start = 0, m_end = 10, m_groups = [1 \<mapsto> text_of ''x'']\<rparr>"
  using search_finds_first_block [of "text_of ''```js\<newline>x```''"]
  by (simp add: eval_text spec_first_block_def spec_block_at_def spec_closes_def)

text \<open>
  Claim C5 as stated fails when the closing sequence is read as the specification words
  it, whitespace and then three backticks: in \<open>```js\<newline>x```\<close> no whitespace stands
  before the closing backticks, so that reading finds no block and the whole text would
  be returned, while the search of \<open>code_regex\<close> matches and the function returns \<open>x\<close>.
\<close>

theorem closing_whitespace_counterexample:
  "search code_regex (text_of ''```js\<newline>x```'') \<noteq> spec_first_block True (text_of ''```js\<newline>x```'') \<and>
   spec_first_block True (text_of ''```js\<newline>x```'') = None \<and>
   fst (parse_and_clean_code (PyStr (text_of ''```js\<newline>x```'')) (Writable [])) = Inr (text_of ''x'')"
proof -
  have "spec_first_block True (text_of ''```js\<newline>x```'') = None"
    by (simp add: eval_text spec_first_block_def spec_block_at_def spec_closes_def)
  moreover have "search code_regex (text_of ''```js\<newline>x```'') \<noteq> None"
    by (simp add: eval_text eval_search)
  moreover have "fst (parse_and_clean_code (PyStr (text_of ''```js\<newline>x```'')) (Writable [])) =
      Inr (text_of ''x'')"
    unfolding parse_and_clean_code_PyStr by (simp add: eval_text eval_search)
  ultimately show ?thesis by simp
qed

text \<open>
  Claim C6, as amended. The function returns a string whenever its \<open>print\<close> and its
  \<open>str()\<close> succeed: for every string, and for every other value whose \<open>str()\<close> returns,
  which then stands for the value. An integer below \<open>10 ^ 4300\<close> in absolute value is such
  a value. The empty string and a string of whitespace only (three spaces, a newline,
  a tab, a space) give the empty string, and the integer 123 gives \<open>123\<close>. When \<open>str()\<close>
  raises, or \<open>print\<close> does, the call raises the same exception.
\<close>

theorem returns_when_str_and_print_succeed:
  "(py_str v = Inr t \<longrightarrow>
      (\<exists>c. fst (parse_and_clean_code v (Writable out)) = Inr c) \<and>
      fst (parse_and_clean_code v (Writable out)) =
        fst (parse_and_clean_code (PyStr t) (Writable out))) \<and>
   (\<bar>i\<bar> < 10 ^ int_max_str_digits \<longrightarrow>
      (\<exists>c. fst (parse_and_clean_code (PyInt i) (Writable out)) = Inr c)) \<and>
   (\<not> isinstance_str v \<and> py_str v = Inl e \<longrightarrow>
      fst (parse_and_clean_code v (Writable out)) = Inl e) \<and>
   fst (parse_and_clean_code v (Unwritable e)) = Inl e \<and>
   fst (parse_and_clean_code (PyStr []) (Writable out)) = Inr [] \<and>
   fst (parse_and_clean_code (PyStr [32, 32, 32, newline, 9, 32]) (Writable out)) = Inr [] \<and>
   fst (parse_and_clean_code (PyInt 123) (Writable out)) = Inr (text_of ''123'')"
proof (intro conjI impI)
  assume t: "py_str v = Inr t"
  show "fst (parse_and_clean_code v (Writable out)) =
      fst (parse_and_clean_code (PyStr t) (Writable out))"
    using t by (rule parse_and_clean_code_coerce)
  then show "\<exists>c. fst (parse_and_clean_code v (Writable out)) = Inr c"
    using result_is_string [of t out] by simp
next
  assume "\<bar>i\<bar> < 10 ^ int_max_str_digits"
  then have "nat \<bar>i\<bar> < 10 ^ int_max_str_digits"
    by (simp add: nat_less_iff)
  moreover have "0 < int_max_str_digits"
    by (simp add: int_max_str_digits_def)
  ultimately have "length (digits (nat \<bar>i\<bar>)) \<le> int_max_str_digits"
    by (rule length_digits_le [rotated])
  then obtain t where "py_str (PyInt i) = Inr t" by simp
  then have "fst (parse_and_clean_code (PyInt i) (Writable out)) =
      fst (parse_and_clean_code (PyStr t) (Writable out))"
    by (rule parse_and_clean_code_coerce)
  then show "\<exists>c. fst (parse_and_clean_code (PyInt i) (Writable out)) = Inr c"
    using result_is_string [of t out] by simp
next
  assume "\<not> isinstance_str v \<and> py_str v = Inl e"
  then show "fst (parse_and_clean_code v (Writable out)) = Inl e"
    using parse_and_clean_code_str_raises by blast
next
  show "fst (parse_and_clean_code v (Unwritable e)) = Inl e"
    by (simp add: parse_and_clean_code_print_raises)
next
  show "fst (parse_and_clean_code (PyStr []) (Writable out)) = Inr []"
    unfolding parse_and_clean_code_PyStr by (simp add: eval_text eval_search)
next
  show "fst (parse_and_clean_code (PyStr [32, 32, 32, newline, 9, 32]) (Writable out)) = Inr []"
    unfolding parse_and_clean_code_PyStr by (simp add: eval_text eval_search)
next
  have "py_str (PyInt 123) = Inr (text_of ''123'')"
    by (simp add: digits.simps int_max_str_digits_def text_of_def)
  then have "fst (parse_and_clean_code (PyInt 123) (Writable out)) =
      fst (parse_and_clean_code (PyStr (text_of ''123'')) (Writable out))"
    by (rule parse_and_clean_code_coerce)
  also have "\<dots> = Inr (text_of ''123'')"
    unfolding parse_and_clean_code_PyStr by (simp add: eval_text eval_search)
  finally show "fst (parse_and_clean_code (PyInt 123) (Writable out)) = Inr (text_of ''123'')" .
qed

theorem returns_when_str_and_print_succeed_witness:
  "py_str (PyBool True) = Inr (text_of ''True'') \<and>
   fst (parse_and_clean_code (PyBool True) (Writable [])) = Inr (text_of ''True'') \<and>
   \<bar>- 45\<bar> < (10::int) ^ int_max_str_digits \<and>
   fst (parse_and_clean_code (PyInt (- 45)) (Writable [])) = Inr (text_of ''-45'') \<and>
   \<not> isinstance_str (PyObject (Inl OtherError)) \<and>
   py_str (PyObject (Inl OtherError)) = Inl OtherError \<and>
   fst (parse_and_clean_code (PyObject (Inl OtherError)) (Writable [])) = Inl OtherError"
proof -
  have b: "py_str (PyBool True) = Inr (text_of ''True'')" by simp
  have "fst (parse_and_clean_code (PyStr (text_of ''True'')) (Writable [])) = Inr (text_of ''True'')"
    unfolding parse_and_clean_code_PyStr by (simp add: eval_text eval_search)
  then have 1: "fst (parse_and_clean_code (PyBool True) (Writable [])) = Inr (text_of ''True'')"
    using returns_when_str_and_print_succeed [of "PyBool True" "text_of ''True''" "[]"] b by simp
  have "(10::int) ^ 2 \<le> 10 ^ int_max_str_digits"
    by (rule power_increasing) (simp_all add: int_max_str_digits_def)
  then have i: "\<bar>- 45\<bar> < (10::int) ^ int_max_str_digits"
    by simp
  have m: "py_str (PyInt (- 45)) = Inr (text_of ''-45'')"
    by (simp add: digits.simps int_max_str_digits_def text_of_def)
  have "fst (parse_and_clean_code (PyStr (text_of ''-45'')) (Writable [])) = Inr (text_of ''-45'')"
    unfolding parse_and_clean_code_PyStr by (simp add: eval_text eval_search)
  then have 2: "fst (parse_and_clean_code (PyInt (- 45)) (Writable [])) = Inr (text_of ''-45'')"
    using returns_when_str_and_print_succeed [of "PyInt (- 45)" "text_of ''-45''" "[]"] m by simp
  have 3: "fst (parse_and_clean_code (PyObject (Inl OtherError)) (Writable [])) = Inl OtherError"
    using returns_when_str_and_print_succeed
      [of "PyObject (Inl OtherError)" _ "[]" _ OtherError] by simp
  show ?thesis using b 1 i 2 3 by simp
qed

text \<open>
  Claim C6 as stated fails: the function does not return a string for every input. For
  the integer \<open>10 ^ 4300\<close>, which has 4301 digits, \<open>str()\<close> raises \<open>ValueError\<close>, and on a closed
  standard output \<open>print\<close> raises \<open>ValueError\<close> before anything else is done.
\<close>

theorem raises_counterexample:
  "fst (parse_and_clean_code (PyInt (10 ^ 4300)) (Writable [])) = Inl ValueError \<and>
   fst (parse_and_clean_code (PyStr []) (Unwritable ValueError)) = Inl ValueError"
proof (rule conjI)
  have "\<not> isinstance_str (PyInt (10 ^ 4300))"
    by (simp only: isinstance_str.simps not_False_eq_True)
  moreover have "py_str (PyInt (10 ^ 4300)) = Inl ValueError"
    by (rule py_str_power10) (simp add: int_max_str_digits_def)
  ultimately
  show "fst (parse_and_clean_code (PyInt (10 ^ 4300)) (Writable [])) = Inl ValueError"
    by (rule parse_and_clean_code_str_raises)
next
  show "fst (parse_and_clean_code (PyStr []) (Unwritable ValueError)) = Inl ValueError"
    by (simp only: parse_and_clean_code_print_raises fst_conv)
qed

text \<open>
  Claim C7. Idempotence on clean output: if \<open>parse_and_clean_code(s)\<close> is \<open>c\<close> and \<open>c\<close>
  contains no triple backtick, then \<open>parse_and_clean_code(c)\<close> is \<open>c\<close>.
\<close>

theorem idempotent_on_clean_output:
  assumes "fst (parse_and_clean_code (PyStr s) (Writable out)) = Inr c"
    and "\<not> has_fence c"
  shows "fst (parse_and_clean_code (PyStr c) (Writable out')) = Inr c"
proof -
  have "strip c = c"
    using assms(1) by (rule result_stripped)
  moreover have "fst (parse_and_clean_code (PyStr c) (Writable out')) = Inr (strip c)"
    using assms(2) by (rule no_fence_result)
  ultimately show ?thesis by simp
qed

theorem idempotent_on_clean_output_witness:
  "fst (parse_and_clean_code (PyStr (text_of ''```py\<newline> x = 1 \<newline>``` done'')) (Writable [])) =
     Inr (text_of ''x = 1'') \<and>
   \<not> has_fence (text_of ''x = 1'') \<and>
   fst (parse_and_clean_code (PyStr (text_of ''x = 1'')) (Writable [])) = Inr (text_of ''x = 1'')"
proof -
  have r: "fst (parse_and_clean_code (PyStr (text_of ''```py\<newline> x = 1 \<newline>``` done'')) (Writable [])) =
      Inr (text_of ''x = 1'')"
    unfolding parse_and_clean_code_PyStr by (simp add: eval_text eval_search)
  have n: "\<not> has_fence (text_of ''x = 1'')"
    by (simp add: eval_text)
  show ?thesis
    using r n idempotent_on_clean_output [OF r n, of "[]"] by blast
qed




text \<open>
  Claim C9. The function is idempotent on every string: it returns a string \<open>c\<close>, and
  applied to \<open>c\<close> it returns \<open>c\<close> again.
\<close>

theorem idempotent:
  "\<exists>c. fst (parse_and_clean_code (PyStr s) (Writable out)) = Inr c \<and>
    fst (parse_and_clean_code (PyStr c) (Writable out')) = Inr c"
proof (cases "search code_regex (strip s)")
  case None
  then have "fst (parse_and_clean_code (PyStr s) (Writable out)) = Inr (strip s)"
    by (simp add: parse_and_clean_code_PyStr)
  moreover have "fst (parse_and_clean_code (PyStr (strip s)) (Writable out')) = Inr (strip s)"
    using None by (simp add: parse_and_clean_code_PyStr strip_strip)
  ultimately show ?thesis by blast
next
  case (Some m)
  then obtain g where g: "fst (parse_and_clean_code (PyStr s) (Writable out)) = Inr (strip g)"
    "\<not> has_fence (strip g)"
    using match_result_no_fence by blast
  then have "fst (parse_and_clean_code (PyStr (strip g)) (Writable out')) = Inr (strip g)"
    by (rule clean_result_fixed)
  then show ?thesis using g(1) by blast
qed

text \<open>
  Claim C10. Whenever the search of \<open>code_regex\<close> matches, the span it captures contains
  no triple backtick, and neither does the string the function returns, which is that
  span trimmed.
\<close>

theorem match_returns_no_fence:
  assumes "search code_regex (strip s) = Some m"
  shows "\<exists>g. m_groups m 1 = Some g \<and> \<not> has_fence g \<and>
    fst (parse_and_clean_code (PyStr s) (Writable out)) = Inr (strip g) \<and> \<not> has_fence (strip g)"
proof -
  obtain g where g: "m_groups m 1 = Some g" "\<not> has_fence g"
    using search_groups [OF assms] by blast
  have "\<not> has_fence (strip g)"
    using g(2) has_fence_strip by blast
  moreover have "fst (parse_and_clean_code (PyStr s) (Writable out)) = Inr (strip g)"
    using assms g(1) by (simp add: parse_and_clean_code_PyStr)
  ultimately show ?thesis using g by blast
qed

theorem match_returns_no_fence_witness:
  "search code_regex (strip (text_of '' ````a`` b`````` ''))
     = Some \<lparr>m_start = 0, m_end = 12, m_groups = [1 \<mapsto> text_of ''`a`` b'']\<rparr> \<and>
   \<not> has_fence (text_of ''`a`` b'') \<and>
   fst (parse_and_clean_code (PyStr (text_of '' ````a`` b`````` '')) (Writable [])) = Inr (text_of ''`a`` b'')"
proof -
  have m: "search code_regex (strip (text_of '' ````a`` b`````` ''))
     = Some \<lparr>m_start = 0, m_end = 12, m_groups = [1 \<mapsto> text_of ''`a`` b'']\<rparr>"
    by (simp add: eval_text eval_search)
  show ?thesis
    using m match_returns_no_fence [OF m, of "[]"]
    by (simp add: eval_text)
qed

end
